theory Spec2Isabelle
  imports Main "HOL-Library.AList" "HOL-Library.Product_Lexorder"
begin

section \<open>Data model\<close>

text \<open>
  A Python \<open>str\<close> is a sequence of Unicode code points and \<open>len\<close> counts code points,
  so a character is modelled by its code point and a text by a list of code points.
  \<open>str\<close> turns an ASCII literal into such a text.
\<close>

type_synonym uchar = nat
type_synonym ustring = "uchar list"

abbreviation str :: "string \<Rightarrow> ustring" where
  "str s \<equiv> map of_char s"

text \<open>
  An entry of the \<open>data\<close> list is any value that \<open>json.load\<close> returns. The decoder
  tells an integer from the rest by \<open>isinstance(item, int)\<close>; of the rest only a string can
  be joined into the text. A JSON boolean is read as a Python \<open>bool\<close>, a subclass of
  \<open>int\<close> that equals and hashes as 1 or 0: for the decoder it is the integer, \<open>Id 1\<close> or
  \<open>Id 0\<close>. Of a value that is neither an integer nor a string only the kind is kept, its
  content plays no part.
\<close>

datatype json_other = JNull | JFloat | JArray | JObject

datatype item = Id int | Lit ustring | Other json_other

text \<open>
  A Python \<open>dict\<close> keeps its keys in insertion order; it is an association list whose
  keys are distinct, assignment being \<open>AList.update\<close> (overwrite in place, or append).
\<close>

type_synonym ('k, 'v) dict = "('k \<times> 'v) list"

text \<open>
  The parsed JSON object read by \<open>decompress_file\<close> and built by \<open>compress_file\<close>.
  A field that is absent from the object is \<open>None\<close>. The type covers the records whose
  \<open>words\<close>, when present, is an object that maps strings to integers, and whose \<open>data\<close>,
  when present, is an array; the entries of the array are arbitrary.
\<close>

record json_record =
  extension :: "ustring option"
  words :: "(ustring, int) dict option"
  data :: "item list option"

text \<open>
  The exceptions of the decoder on such records: \<open>KeyError\<close>, carrying the missing key,
  and the \<open>TypeError\<close> of \<open>"".join\<close> on an entry that is not a string.
\<close>

datatype pykey = KeyStr string | KeyInt int

datatype error = KeyError pykey | TypeError

section \<open>Tokenizer: \<open>re.split(r"(\s+)", text)\<close>\<close>

text \<open>
  \<open>\s\<close> on a \<open>str\<close> pattern matches the Unicode whitespace code points (those of
  \<open>str.isspace\<close>).
\<close>

definition is_space :: "uchar \<Rightarrow> bool" where
  "is_space c \<longleftrightarrow>
     (9 \<le> c \<and> c \<le> 13) \<or> (28 \<le> c \<and> c \<le> 32) \<or> c = 133 \<or> c = 160 \<or> c = 5760 \<or>
     (8192 \<le> c \<and> c \<le> 8202) \<or> c = 8232 \<or> c = 8233 \<or> c = 8239 \<or> c = 8287 \<or> c = 12288"

text \<open>
  Splitting on a capturing group keeps the separators: the result is the text before the
  first whitespace run, that run, the text up to the next run, and so on, ending with the
  text after the last run. The segments between runs may be empty.
\<close>

function re_split :: "ustring \<Rightarrow> ustring list" where
  "re_split text =
     (let seg = takeWhile (\<lambda>c. \<not> is_space c) text;
          rest = dropWhile (\<lambda>c. \<not> is_space c) text
      in if rest = [] then [seg]
         else seg # takeWhile is_space rest # re_split (dropWhile is_space rest))"
  by pat_completeness auto

lemma length_dropWhile_space_less:
  assumes "dropWhile (\<lambda>c. \<not> is_space c) text \<noteq> []"
  shows "length (dropWhile is_space (dropWhile (\<lambda>c. \<not> is_space c) text)) < length text"
proof -
  let ?rest = "dropWhile (\<lambda>c. \<not> is_space c) text"
  from assms obtain c cs where rest: "?rest = c # cs"
    by (cases ?rest) auto
  then have "is_space c"
    using hd_dropWhile [of "\<lambda>c. \<not> is_space c" "text"] assms by auto
  then have "length (dropWhile is_space ?rest) \<le> length cs"
    using rest length_dropWhile_le [of is_space cs] by simp
  moreover have "length ?rest \<le> length text"
    by (rule length_dropWhile_le)
  ultimately show ?thesis
    using rest by simp
qed

termination re_split
  by (relation "measure length") (auto simp: length_dropWhile_space_less)

declare re_split.simps [simp del]

section \<open>Encoder: \<open>compress_file\<close>\<close>

text \<open>\<open>d.get(k, dflt)\<close>.\<close>

definition dict_get :: "('k, 'v) dict \<Rightarrow> 'k \<Rightarrow> 'v \<Rightarrow> 'v" where
  "dict_get d k dflt = (case map_of d k of None \<Rightarrow> dflt | Some v \<Rightarrow> v)"

text \<open>The loop \<open>frequency[token] = frequency.get(token, 0) + 1\<close> over the tokens.\<close>

definition count_frequency :: "ustring list \<Rightarrow> (ustring, int) dict" where
  "count_frequency tokens =
     fold (\<lambda>token frequency. AList.update token (dict_get frequency token 0 + 1) frequency)
       tokens []"

text \<open>
  The sort key \<open>(-frequency[x], len(x))\<close>; tuples compare lexicographically. The key is
  only ever computed for keys of \<open>frequency\<close>, so the lookup cannot fail.
\<close>

definition rank_key :: "(ustring, int) dict \<Rightarrow> ustring \<Rightarrow> int \<times> nat" where
  "rank_key frequency x = (- dict_get frequency x 0, length x)"

text \<open>
  \<open>sorted(frequency.keys(), key=...)\<close>: a stable sort of the keys, taken in the
  insertion order of the dict.
\<close>

definition sorted_tokens :: "(ustring, int) dict \<Rightarrow> ustring list" where
  "sorted_tokens frequency = sort_key (rank_key frequency) (map fst frequency)"

text \<open>The test \<open>frequency[token] > 1 or len(token) > 3\<close>.\<close>

definition worth_compressing :: "(ustring, int) dict \<Rightarrow> ustring \<Rightarrow> bool" where
  "worth_compressing frequency token \<longleftrightarrow>
     dict_get frequency token 0 > 1 \<or> length token > 3"

text \<open>The loop over \<open>enumerate(sorted_tokens)\<close> filling \<open>word_dict\<close>.\<close>

definition build_word_dict ::
    "(ustring, int) dict \<Rightarrow> ustring list \<Rightarrow> (ustring, int) dict" where
  "build_word_dict frequency ranked =
     fold (\<lambda>(i, token) word_dict.
             if worth_compressing frequency token
             then AList.update token (int i + 1) word_dict
             else word_dict)
       (enumerate 0 ranked) []"

text \<open>The loop building \<open>data_ids\<close>.\<close>

definition build_data :: "(ustring, int) dict \<Rightarrow> ustring list \<Rightarrow> item list" where
  "build_data word_dict tokens =
     map (\<lambda>token. case map_of word_dict token of Some i \<Rightarrow> Id i | None \<Rightarrow> Lit token) tokens"

text \<open>
  The dictionary of a token sequence, and the record \<open>compressed_data\<close>. The second
  argument of \<open>compress_file\<close> is \<open>Path(file_path).suffix\<close>; reading the file, the size
  report and writing the JSON file are left to the caller.
\<close>

definition word_dict_of :: "ustring list \<Rightarrow> (ustring, int) dict" where
  "word_dict_of tokens =
     (let frequency = count_frequency tokens
      in build_word_dict frequency (sorted_tokens frequency))"

definition compress_file :: "ustring \<Rightarrow> ustring \<Rightarrow> json_record" where
  "compress_file text original_extension =
     (let tokens = re_split text;
          word_dict = word_dict_of tokens;
          data_ids = build_data word_dict tokens
      in \<lparr>extension = Some original_extension,
          words = Some word_dict,
          data = Some data_ids\<rparr>)"

section \<open>Decoder: \<open>decompress_file\<close>\<close>

text \<open>\<open>id_to_word = {v: k for k, v in words.items()}\<close>: a later pair overwrites.\<close>

definition id_to_word :: "(ustring, int) dict \<Rightarrow> (int, ustring) dict" where
  "id_to_word ws = fold (\<lambda>(k, v) m. AList.update v k m) ws []"

text \<open>
  An element of \<open>restored_tokens\<close>: a string, or an entry of \<open>data\<close> that is neither an
  integer nor a string, appended as it is by the \<open>else\<close> branch.
\<close>

datatype restored = Str ustring | NotStr json_other

text \<open>
  The loop over \<open>data_ids\<close>: \<open>id_to_word[item]\<close> raises \<open>KeyError\<close> at the first
  identifier that is not a key, and nothing is returned then.
\<close>

fun restore_tokens :: "(int, ustring) dict \<Rightarrow> item list \<Rightarrow> error + restored list" where
  "restore_tokens m [] = Inr []"
| "restore_tokens m (Id i # rest) =
     (case map_of m i of
        None \<Rightarrow> Inl (KeyError (KeyInt i))
      | Some w \<Rightarrow>
          (case restore_tokens m rest of
             Inl e \<Rightarrow> Inl e
           | Inr restored_tokens \<Rightarrow> Inr (Str w # restored_tokens)))"
| "restore_tokens m (Lit s # rest) =
     (case restore_tokens m rest of
        Inl e \<Rightarrow> Inl e
      | Inr restored_tokens \<Rightarrow> Inr (Str s # restored_tokens))"
| "restore_tokens m (Other v # rest) =
     (case restore_tokens m rest of
        Inl e \<Rightarrow> Inl e
      | Inr restored_tokens \<Rightarrow> Inr (NotStr v # restored_tokens))"

text \<open>\<open>"".join(restored_tokens)\<close>: a \<open>TypeError\<close> when an element is not a string.\<close>

fun str_join :: "restored list \<Rightarrow> error + ustring" where
  "str_join [] = Inr []"
| "str_join (Str s # rest) =
     (case str_join rest of
        Inl e \<Rightarrow> Inl e
      | Inr joined \<Rightarrow> Inr (s @ joined))"
| "str_join (NotStr v # rest) = Inl TypeError"

text \<open>
  The result is the restored text and the extension of the output file, or the exception
  that the \<open>except\<close> clause reports; no file is written in that case.
\<close>

definition decompress_file :: "json_record \<Rightarrow> error + (ustring \<times> ustring)" where
  "decompress_file r =
     (case words r of
        None \<Rightarrow> Inl (KeyError (KeyStr ''words''))
      | Some ws \<Rightarrow>
          (case data r of
             None \<Rightarrow> Inl (KeyError (KeyStr ''data''))
           | Some data_ids \<Rightarrow>
               (let ext = (case extension r of None \<Rightarrow> str ''.txt'' | Some e \<Rightarrow> e)
                in case restore_tokens (id_to_word ws) data_ids of
                     Inl e \<Rightarrow> Inl e
                   | Inr restored_tokens \<Rightarrow>
                       (case str_join restored_tokens of
                          Inl e \<Rightarrow> Inl e
                        | Inr restored_text \<Rightarrow> Inr (restored_text, ext)))))"

section \<open>Auxiliary facts\<close>

subsection \<open>The tokenizer\<close>

lemma concat_re_split: "concat (re_split text) = text"
proof (induction "text" rule: re_split.induct)
  case (1 t)
  let ?rest = "dropWhile (\<lambda>c. \<not> is_space c) t"
  show ?case
  proof (cases "?rest = []")
    case True
    then have "takeWhile (\<lambda>c. \<not> is_space c) t = t"
      using takeWhile_dropWhile_id [of "\<lambda>c. \<not> is_space c" t] by simp
    with True show ?thesis
      by (subst re_split.simps) (simp add: Let_def)
  next
    case False
    then have "concat (re_split (dropWhile is_space ?rest)) = dropWhile is_space ?rest"
      using 1 by simp
    with False show ?thesis
      by (subst re_split.simps) (simp add: Let_def)
  qed
qed


subsection \<open>The frequency table\<close>

lemma update_fresh_append:
  "k \<notin> fst ` set al \<Longrightarrow> AList.update k v al = al @ [(k, v)]"
  by (induction al) auto

lemma dict_get_update:
  "dict_get (AList.update k v d) t dflt = (if t = k then v else dict_get d t dflt)"
  by (simp add: dict_get_def update_conv)

lemma keys_update: "fst ` set (AList.update k v d) = insert k (fst ` set d)"
  using dom_update [of k v d] by (simp add: dom_map_of_conv_image_fst)

lemma map_of_count_fold:
  defines "step \<equiv> \<lambda>token frequency. AList.update token (dict_get frequency token 0 + 1) frequency"
  shows "map_of (fold step tokens acc) t =
     (if t \<in> set tokens \<or> t \<in> fst ` set acc
      then Some (dict_get acc t 0 + int (count_list tokens t)) else None)"
proof (induction tokens arbitrary: acc)
  case Nil
  show ?case
    by (auto simp: dict_get_def map_of_eq_None_iff split: option.splits)
next
  case (Cons a tokens)
  have keys: "fst ` set (step a acc) = insert a (fst ` set acc)"
    unfolding step_def by (rule keys_update)
  have get: "dict_get (step a acc) t 0 = (if t = a then dict_get acc a 0 + 1 else dict_get acc t 0)"
    unfolding step_def by (rule dict_get_update)
  have "map_of (fold step (a # tokens) acc) t = map_of (fold step tokens (step a acc)) t"
    by simp
  also have "\<dots> = (if t \<in> set tokens \<or> t \<in> fst ` set (step a acc)
      then Some (dict_get (step a acc) t 0 + int (count_list tokens t)) else None)"
    by (rule Cons.IH)
  also have "\<dots> = (if t \<in> set (a # tokens) \<or> t \<in> fst ` set acc
      then Some (dict_get acc t 0 + int (count_list (a # tokens) t)) else None)"
    unfolding keys get by auto
  finally show ?case .
qed

lemma map_of_count_frequency:
  "map_of (count_frequency tokens) t =
     (if t \<in> set tokens then Some (int (count_list tokens t)) else None)"
  unfolding count_frequency_def map_of_count_fold by (simp add: dict_get_def)

lemma frequency_get:
  "dict_get (count_frequency tokens) t 0 = int (count_list tokens t)"
  by (simp add: dict_get_def map_of_count_frequency count_list_0_iff)

lemma distinct_count_fold:
  "distinct (map fst acc) \<Longrightarrow>
   distinct (map fst (fold (\<lambda>token frequency. AList.update token (dict_get frequency token 0 + 1) frequency) tokens acc))"
  by (induction tokens arbitrary: acc) (auto simp: distinct_update)

lemma distinct_keys_count_frequency: "distinct (map fst (count_frequency tokens))"
  unfolding count_frequency_def by (rule distinct_count_fold) simp

lemma set_keys_count_frequency: "set (map fst (count_frequency tokens)) = set tokens"
proof -
  have "fst ` set (count_frequency tokens) = dom (map_of (count_frequency tokens))"
    by (simp add: dom_map_of_conv_image_fst)
  also have "\<dots> = set tokens"
    by (auto simp: map_of_count_frequency dom_def)
  finally show ?thesis by simp
qed

lemma set_sorted_tokens: "set (sorted_tokens (count_frequency tokens)) = set tokens"
  unfolding sorted_tokens_def using set_keys_count_frequency by simp

lemma distinct_sorted_tokens: "distinct (sorted_tokens (count_frequency tokens))"
  unfolding sorted_tokens_def using distinct_keys_count_frequency by simp

lemma length_sorted_tokens: "length (sorted_tokens (count_frequency tokens)) = card (set tokens)"
  using distinct_card [OF distinct_sorted_tokens, of tokens] set_sorted_tokens by simp


subsection \<open>The dictionary\<close>

lemma build_word_dict_fold:
  defines "step \<equiv> \<lambda>frequency (i, token) word_dict.
             if worth_compressing frequency token
             then AList.update token (int i + 1) word_dict
             else word_dict"
  assumes "distinct ranked" and "set ranked \<inter> fst ` set acc = {}"
  shows "fold (step frequency) (enumerate n ranked) acc =
     acc @ map (\<lambda>(i, token). (token, int i + 1))
            (filter (\<lambda>(i, token). worth_compressing frequency token) (enumerate n ranked))"
  using assms(2,3)
proof (induction ranked arbitrary: n acc)
  case Nil
  show ?case by simp
next
  case (Cons x xs)
  show ?case
  proof (cases "worth_compressing frequency x")
    case True
    have fresh: "x \<notin> fst ` set acc"
      using Cons.prems by auto
    then have upd: "step frequency (n, x) acc = acc @ [(x, int n + 1)]"
      using True by (simp add: step_def update_fresh_append)
    have "set xs \<inter> fst ` set (acc @ [(x, int n + 1)]) = {}"
      using Cons.prems by auto
    then have "fold (step frequency) (enumerate (Suc n) xs) (acc @ [(x, int n + 1)]) =
        (acc @ [(x, int n + 1)]) @ map (\<lambda>(i, token). (token, int i + 1))
            (filter (\<lambda>(i, token). worth_compressing frequency token) (enumerate (Suc n) xs))"
      using Cons.prems by (intro Cons.IH) auto
    with upd True show ?thesis by simp
  next
    case False
    then have upd: "step frequency (n, x) acc = acc"
      by (simp add: step_def)
    have "fold (step frequency) (enumerate (Suc n) xs) acc =
        acc @ map (\<lambda>(i, token). (token, int i + 1))
            (filter (\<lambda>(i, token). worth_compressing frequency token) (enumerate (Suc n) xs))"
      using Cons.prems by (intro Cons.IH) auto
    with upd False show ?thesis by simp
  qed
qed

lemma build_word_dict_eq:
  assumes "distinct ranked"
  shows "build_word_dict frequency ranked =
     map (\<lambda>(i, token). (token, int i + 1))
       (filter (\<lambda>(i, token). worth_compressing frequency token) (enumerate 0 ranked))"
  unfolding build_word_dict_def
  using build_word_dict_fold [OF assms, of "[]" frequency 0] by simp

lemma keys_build_word_dict:
  assumes "distinct ranked"
  shows "map fst (build_word_dict frequency ranked) = filter (worth_compressing frequency) ranked"
proof -
  have "map fst (map (\<lambda>(i, token). (token, int i + 1))
       (filter (\<lambda>(i, token). worth_compressing frequency token) (enumerate n ranked)))
      = filter (worth_compressing frequency) ranked" for n
    by (induction ranked arbitrary: n) auto
  then show ?thesis
    using assms by (simp add: build_word_dict_eq)
qed

lemma values_build_word_dict:
  assumes "distinct ranked"
  shows "map snd (build_word_dict frequency ranked) =
     map (\<lambda>i. int i + 1)
       (map fst (filter (\<lambda>(i, token). worth_compressing frequency token) (enumerate 0 ranked)))"
  using assms by (simp add: build_word_dict_eq case_prod_beta comp_def)

lemma distinct_values_build_word_dict:
  assumes "distinct ranked"
  shows "distinct (map snd (build_word_dict frequency ranked))"
proof -
  have "distinct (map fst (enumerate 0 ranked))"
    by simp
  then have "distinct (map fst (filter (\<lambda>(i, token). worth_compressing frequency token)
      (enumerate 0 ranked)))"
    by (rule distinct_map_filter)
  moreover have "inj_on (\<lambda>i. int i + 1) A" for A
    by (auto simp: inj_on_def)
  ultimately have "distinct (map (\<lambda>i. int i + 1)
      (map fst (filter (\<lambda>(i, token). worth_compressing frequency token) (enumerate 0 ranked))))"
    by (subst distinct_map) blast
  then show ?thesis
    unfolding values_build_word_dict [OF assms] .
qed

lemma in_build_word_dict_iff:
  assumes "distinct ranked"
  shows "(t, v) \<in> set (build_word_dict frequency ranked) \<longleftrightarrow>
     worth_compressing frequency t \<and> (\<exists>j < length ranked. ranked ! j = t \<and> v = int j + 1)"
  unfolding build_word_dict_eq [OF assms]
  by (auto simp: in_set_enumerate_eq image_iff)

lemma map_of_build_word_dict_iff:
  assumes "distinct ranked"
  shows "map_of (build_word_dict frequency ranked) t = Some v \<longleftrightarrow>
     worth_compressing frequency t \<and> (\<exists>j < length ranked. ranked ! j = t \<and> v = int j + 1)"
proof -
  have "distinct (map fst (build_word_dict frequency ranked))"
    using assms by (simp add: keys_build_word_dict)
  then show ?thesis
    using in_build_word_dict_iff [OF assms] by simp
qed


lemma distinct_values_word_dict_of: "distinct (map snd (word_dict_of tokens))"
  unfolding word_dict_of_def Let_def
  by (rule distinct_values_build_word_dict) (rule distinct_sorted_tokens)

lemma map_of_word_dict_of_iff:
  "map_of (word_dict_of tokens) t = Some v \<longleftrightarrow>
     worth_compressing (count_frequency tokens) t \<and>
     (\<exists>j < length (sorted_tokens (count_frequency tokens)).
        sorted_tokens (count_frequency tokens) ! j = t \<and> v = int j + 1)"
  unfolding word_dict_of_def Let_def
  by (rule map_of_build_word_dict_iff) (rule distinct_sorted_tokens)

lemma keys_word_dict_of:
  "fst ` set (word_dict_of tokens) =
     {t \<in> set tokens. 1 < count_list tokens t \<or> 3 < length t}"
proof -
  have "map fst (word_dict_of tokens) =
      filter (worth_compressing (count_frequency tokens)) (sorted_tokens (count_frequency tokens))"
    unfolding word_dict_of_def Let_def
    by (rule keys_build_word_dict) (rule distinct_sorted_tokens)
  then have "set (map fst (word_dict_of tokens)) =
      {t \<in> set tokens. worth_compressing (count_frequency tokens) t}"
    by (simp add: set_sorted_tokens)
  then show ?thesis
    by (simp add: worth_compressing_def frequency_get)
qed

subsection \<open>The reverse dictionary and the decoding loop\<close>

lemma map_of_id_to_word_fold:
  "map_of (fold (\<lambda>(k, v) m. AList.update v k m) ws acc) i =
     (case map_of (rev (map (\<lambda>(k, v). (v, k)) ws)) i of
        Some k \<Rightarrow> Some k
      | None \<Rightarrow> map_of acc i)"
proof (induction ws arbitrary: acc)
  case Nil
  show ?case by simp
next
  case (Cons p ws)
  obtain k v where p: "p = (k, v)" by (cases p)
  show ?case
    unfolding p by (simp add: Cons.IH update_conv map_add_def split: option.splits)
qed

lemma map_of_id_to_word:
  "map_of (id_to_word ws) = map_of (rev (map (\<lambda>(k, v). (v, k)) ws))"
  unfolding id_to_word_def by (rule ext) (simp add: map_of_id_to_word_fold split: option.splits)

lemma dom_id_to_word: "dom (map_of (id_to_word ws)) = snd ` set ws"
  unfolding map_of_id_to_word by (force simp: dom_map_of_conv_image_fst)

lemma id_to_word_last:
  assumes "v \<notin> snd ` set ws2"
  shows "map_of (id_to_word (ws1 @ (k, v) # ws2)) v = Some k"
proof -
  have "map_of (rev (map (\<lambda>(k, v). (v, k)) ws2)) v = None"
    using assms by (force simp: map_of_eq_None_iff)
  then show ?thesis
    unfolding map_of_id_to_word by (simp add: map_add_def)
qed

lemma id_to_word_distinct:
  assumes "distinct (map snd ws)" and "(k, v) \<in> set ws"
  shows "map_of (id_to_word ws) v = Some k"
proof -
  from assms(2) obtain ws1 ws2 where ws: "ws = ws1 @ (k, v) # ws2"
    by (auto simp: in_set_conv_decomp)
  with assms(1) have "v \<notin> snd ` set ws2"
    by auto
  then show ?thesis
    unfolding ws by (rule id_to_word_last)
qed

lemma id_to_word_SomeD:
  assumes "map_of (id_to_word ws) i = Some k"
  shows "\<exists>ws1 ws2. ws = ws1 @ (k, i) # ws2 \<and> i \<notin> snd ` set ws2"
  using assms
proof (induction ws rule: rev_induct)
  case Nil
  then show ?case by (simp add: id_to_word_def)
next
  case (snoc p ws)
  obtain k' v' where p: "p = (k', v')" by (cases p)
  show ?case
  proof (cases "v' = i")
    case True
    have "map_of (id_to_word (ws @ [(k', v')])) v' = Some k'"
      by (rule id_to_word_last) simp
    with snoc.prems True p have "k' = k" by simp
    with True p have "ws @ [p] = ws @ (k, i) # [] \<and> i \<notin> snd ` set []"
      by simp
    then show ?thesis by blast
  next
    case False
    from snoc.prems have "map_of (id_to_word ws) i = Some k"
      unfolding map_of_id_to_word p using False by (simp add: map_add_def)
    then obtain ws1 ws2 where "ws = ws1 @ (k, i) # ws2" and "i \<notin> snd ` set ws2"
      using snoc.IH by blast
    then have "ws @ [p] = ws1 @ (k, i) # (ws2 @ [p]) \<and> i \<notin> snd ` set (ws2 @ [p])"
      using False p by auto
    then show ?thesis by blast
  qed
qed

lemma str_join_strings: "str_join (map Str ss) = Inr (concat ss)"
  by (induction ss) simp_all

lemma str_join_not_string:
  assumes "NotStr v \<in> set rs"
  shows "str_join rs = Inl TypeError"
  using assms by (induction rs rule: str_join.induct) (auto split: sum.splits)

lemma restore_tokens_ok:
  assumes "\<forall>i. Id i \<in> set ds \<longrightarrow> i \<in> dom (map_of m)"
  shows "restore_tokens m ds =
     Inr (map (\<lambda>e. case e of Id i \<Rightarrow> Str (the (map_of m i)) | Lit s \<Rightarrow> Str s
                | Other v \<Rightarrow> NotStr v) ds)"
  using assms by (induction m ds rule: restore_tokens.induct) (auto split: option.splits)

lemma restore_tokens_strings:
  assumes "\<forall>i. Id i \<in> set ds \<longrightarrow> i \<in> dom (map_of m)" and "\<forall>v. Other v \<notin> set ds"
  shows "restore_tokens m ds =
     Inr (map Str (map (\<lambda>e. case e of Id i \<Rightarrow> the (map_of m i) | Lit s \<Rightarrow> s
                | Other v \<Rightarrow> []) ds))"
proof -
  have "map (\<lambda>e. case e of Id i \<Rightarrow> Str (the (map_of m i)) | Lit s \<Rightarrow> Str s
                | Other v \<Rightarrow> NotStr v) ds =
      map Str (map (\<lambda>e. case e of Id i \<Rightarrow> the (map_of m i) | Lit s \<Rightarrow> s
                | Other v \<Rightarrow> []) ds)"
    using assms(2) by (induction ds) (auto split: item.splits)
  with restore_tokens_ok [OF assms(1)] show ?thesis
    by simp
qed

lemma restore_tokens_fail:
  assumes "Id i \<in> set ds" and "map_of m i = None"
  shows "\<exists>j. restore_tokens m ds = Inl (KeyError (KeyInt j)) \<and> Id j \<in> set ds \<and> map_of m j = None"
  using assms
  by (induction m ds rule: restore_tokens.induct) (auto split: option.splits sum.splits)

lemma restore_build_data:
  assumes "distinct (map snd word_dict)"
  shows "restore_tokens (id_to_word word_dict) (build_data word_dict tokens) =
     Inr (map Str tokens)"
proof (induction tokens)
  case Nil
  show ?case by (simp add: build_data_def)
next
  case (Cons t tokens)
  then have IH: "restore_tokens (id_to_word word_dict)
      (map (\<lambda>token. case map_of word_dict token of Some i \<Rightarrow> Id i | None \<Rightarrow> Lit token) tokens) =
      Inr (map Str tokens)"
    by (simp add: build_data_def)
  show ?case
  proof (cases "map_of word_dict t")
    case None
    with IH show ?thesis by (simp add: build_data_def)
  next
    case (Some i)
    then have "(t, i) \<in> set word_dict"
      by (rule map_of_SomeD)
    with assms have "map_of (id_to_word word_dict) i = Some t"
      by (rule id_to_word_distinct)
    with Some IH show ?thesis by (simp add: build_data_def)
  qed
qed

section \<open>Round trip\<close>

text \<open>
  Claim C1. For every text, the empty one and every other, and every extension string,
  decoding the record that \<open>compress_file\<close> builds gives back exactly the text and the
  extension.
\<close>

theorem round_trip:
  "decompress_file (compress_file text ext) = Inr (text, ext)"
  by (simp add: decompress_file_def compress_file_def Let_def restore_build_data
      distinct_values_word_dict_of str_join_strings concat_re_split)

section \<open>Tokenizer\<close>

text \<open>
  Claim C8. For every text, empty or with leading or trailing whitespace or control
  characters, the tokens produced by the tokenizer, concatenated in order, are the text.
\<close>

theorem tokenizer_concatenation: "concat (re_split text) = text"
  by (rule concat_re_split)

section \<open>Evaluation on concrete texts\<close>

text \<open>The two cases of \<open>re_split\<close> as conditional equations, for the simplifier.\<close>

lemma re_split_last:
  "dropWhile (\<lambda>c. \<not> is_space c) t = [] \<Longrightarrow> re_split t = [t]"
  using takeWhile_dropWhile_id [of "\<lambda>c. \<not> is_space c" t]
  by (subst re_split.simps) (simp add: Let_def)

lemma re_split_more:
  "dropWhile (\<lambda>c. \<not> is_space c) t \<noteq> [] \<Longrightarrow>
   re_split t = takeWhile (\<lambda>c. \<not> is_space c) t #
     takeWhile is_space (dropWhile (\<lambda>c. \<not> is_space c) t) #
     re_split (dropWhile is_space (dropWhile (\<lambda>c. \<not> is_space c) t))"
  by (subst re_split.simps) (simp add: Let_def)

lemma words_compress_file: "words (compress_file t ext) = Some (word_dict_of (re_split t))"
  by (simp add: compress_file_def Let_def)

lemma data_compress_file:
  "data (compress_file t ext) = Some (build_data (word_dict_of (re_split t)) (re_split t))"
  by (simp add: compress_file_def Let_def)

lemma build_data_literal:
  assumes "j < length tokens" and "tokens ! j \<notin> fst ` set word_dict"
  shows "build_data word_dict tokens ! j = Lit (tokens ! j)"
proof -
  from assms(2) have "map_of word_dict (tokens ! j) = None"
    by (simp add: map_of_eq_None_iff)
  with assms(1) show ?thesis
    by (simp add: build_data_def)
qed

text \<open>The text \<open>"a a b"\<close>, evaluated.\<close>

lemma example_tokens:
  "re_split (str ''a a b'') = [str ''a'', str '' '', str ''a'', str '' '', str ''b'']"
  by (simp add: re_split_last re_split_more is_space_def)

lemma example_word_dict:
  "word_dict_of [str ''a'', str '' '', str ''a'', str '' '', str ''b''] =
     [(str ''a'', 1), (str '' '', 2)]"
  by (simp add: word_dict_of_def count_frequency_def sorted_tokens_def rank_key_def
      build_word_dict_def worth_compressing_def dict_get_def enumerate_eq_zip upt_rec)

section \<open>The dictionary and the data sequence\<close>

text \<open>
  Claim C3. In the record built from a text, a token of the text is a key of \<open>words\<close>
  if and only if it occurs more than once among the tokens or is longer than three
  characters; the keys are tokens of the text; and a token that fails both conditions
  stands in \<open>data\<close> as a literal at each of its positions.
\<close>

theorem inclusion_predicate:
  "\<exists>ws ds. words (compress_file t ext) = Some ws \<and> data (compress_file t ext) = Some ds \<and>
     length ds = length (re_split t) \<and>
     fst ` set ws \<subseteq> set (re_split t) \<and>
     (\<forall>token \<in> set (re_split t).
        token \<in> fst ` set ws \<longleftrightarrow> 1 < count_list (re_split t) token \<or> 3 < length token) \<and>
     (\<forall>j < length (re_split t).
        \<not> 1 < count_list (re_split t) (re_split t ! j) \<and> \<not> 3 < length (re_split t ! j) \<longrightarrow>
        ds ! j = Lit (re_split t ! j))"
proof -
  let ?tokens = "re_split t"
  let ?ws = "word_dict_of ?tokens"
  let ?ds = "build_data ?ws ?tokens"
  have "length ?ds = length ?tokens"
    by (simp add: build_data_def)
  moreover have "fst ` set ?ws \<subseteq> set ?tokens"
    unfolding keys_word_dict_of by blast
  moreover have "\<forall>token \<in> set ?tokens.
      token \<in> fst ` set ?ws \<longleftrightarrow> 1 < count_list ?tokens token \<or> 3 < length token"
    unfolding keys_word_dict_of by blast
  moreover have "\<forall>j < length ?tokens.
      \<not> 1 < count_list ?tokens (?tokens ! j) \<and> \<not> 3 < length (?tokens ! j) \<longrightarrow>
      ?ds ! j = Lit (?tokens ! j)"
  proof (intro allI impI)
    fix j
    assume j: "j < length ?tokens"
      and "\<not> 1 < count_list ?tokens (?tokens ! j) \<and> \<not> 3 < length (?tokens ! j)"
    then have "?tokens ! j \<notin> fst ` set ?ws"
      unfolding keys_word_dict_of by blast
    with j show "?ds ! j = Lit (?tokens ! j)"
      by (rule build_data_literal)
  qed
  ultimately show ?thesis
    using words_compress_file [of t ext] data_compress_file [of t ext] by blast
qed

text \<open>On \<open>"a a b"\<close>: \<open>a\<close> is a key, \<open>b\<close> is not and is the literal at position 4.\<close>

theorem inclusion_predicate_witness:
  "str ''a'' \<in> fst ` set (the (words (compress_file (str ''a a b'') (str ''.txt'')))) \<and>
   str ''b'' \<notin> fst ` set (the (words (compress_file (str ''a a b'') (str ''.txt'')))) \<and>
   the (data (compress_file (str ''a a b'') (str ''.txt''))) ! 4 = Lit (str ''b'')"
proof -
  let ?r = "compress_file (str ''a a b'') (str ''.txt'')"
  let ?tokens = "[str ''a'', str '' '', str ''a'', str '' '', str ''b'']"
  from inclusion_predicate [of "str ''a a b''" "str ''.txt''"]
  obtain ws ds where ws: "words ?r = Some ws" and ds: "data ?r = Some ds"
    and keys: "\<forall>token \<in> set ?tokens.
        token \<in> fst ` set ws \<longleftrightarrow> 1 < count_list ?tokens token \<or> 3 < length token"
    and lits: "\<forall>j < length ?tokens.
        \<not> 1 < count_list ?tokens (?tokens ! j) \<and> \<not> 3 < length (?tokens ! j) \<longrightarrow>
        ds ! j = Lit (?tokens ! j)"
    unfolding example_tokens by blast
  from keys have "str ''a'' \<in> fst ` set ws" by simp
  moreover from keys have "str ''b'' \<notin> fst ` set ws" by simp
  moreover from lits have "ds ! 4 = Lit (str ''b'')" by simp
  ultimately show ?thesis
    using ws ds by simp
qed

text \<open>
  Claim C6. The values of \<open>words\<close> in the record built from a text are pairwise distinct
  and lie between 1 and the number of distinct tokens of the text.
\<close>

theorem identifiers_unique_in_range:
  "\<exists>ws. words (compress_file t ext) = Some ws \<and> distinct (map snd ws) \<and>
     (\<forall>v \<in> snd ` set ws. 1 \<le> v \<and> v \<le> int (card (set (re_split t))))"
proof -
  let ?tokens = "re_split t"
  let ?ws = "word_dict_of ?tokens"
  have "1 \<le> v \<and> v \<le> int (card (set ?tokens))" if "v \<in> snd ` set ?ws" for v
  proof -
    from that obtain token where "(token, v) \<in> set ?ws"
      by auto
    moreover have "distinct (map fst ?ws)"
      unfolding word_dict_of_def Let_def
      by (simp add: keys_build_word_dict distinct_sorted_tokens)
    ultimately have "map_of ?ws token = Some v"
      by simp
    then obtain j where "j < length (sorted_tokens (count_frequency ?tokens))" and "v = int j + 1"
      unfolding map_of_word_dict_of_iff by blast
    then show ?thesis
      by (simp add: length_sorted_tokens)
  qed
  then show ?thesis
    using words_compress_file [of t ext] distinct_values_word_dict_of [of ?tokens] by blast
qed

text \<open>On \<open>"a a b"\<close>: the identifier 2 is used and there are three distinct tokens.\<close>

theorem identifiers_unique_in_range_witness:
  "2 \<in> snd ` set (the (words (compress_file (str ''a a b'') (str ''.txt'')))) \<and>
   (2::int) \<le> int (card (set (re_split (str ''a a b''))))"
proof -
  let ?r = "compress_file (str ''a a b'') (str ''.txt'')"
  have w: "words ?r = Some [(str ''a'', 1), (str '' '', 2)]"
    by (simp only: words_compress_file example_tokens example_word_dict)
  from identifiers_unique_in_range [of "str ''a a b''" "str ''.txt''"]
  have "\<forall>v \<in> snd ` set [(str ''a'', 1::int), (str '' '', 2)].
      1 \<le> v \<and> v \<le> int (card (set (re_split (str ''a a b''))))"
    unfolding w by blast
  then have "(2::int) \<le> int (card (set (re_split (str ''a a b''))))"
    by simp
  with w show ?thesis by simp
qed

section \<open>Decoding malformed records\<close>

text \<open>
  Claim C5. If \<open>data\<close> holds an integer that is not a value of \<open>words\<close>, decoding fails
  with a \<open>KeyError\<close> on such an integer, the exception by which the code rejects the
  record; no text is produced.
\<close>

theorem unknown_identifier_rejected:
  assumes "words r = Some ws" and "data r = Some ds"
    and "Id i \<in> set ds" and "i \<notin> snd ` set ws"
  shows "\<exists>j. decompress_file r = Inl (KeyError (KeyInt j)) \<and> Id j \<in> set ds \<and> j \<notin> snd ` set ws"
proof -
  from assms(4) have "map_of (id_to_word ws) i = None"
    using dom_id_to_word [of ws] by blast
  with assms(3) obtain j where "restore_tokens (id_to_word ws) ds = Inl (KeyError (KeyInt j))"
    and "Id j \<in> set ds" and "map_of (id_to_word ws) j = None"
    using restore_tokens_fail by blast
  moreover from this have "j \<notin> snd ` set ws"
    using dom_id_to_word [of ws] by blast
  ultimately show ?thesis
    using assms(1,2) by (auto simp: decompress_file_def)
qed

text \<open>The identifier 7 in \<open>data\<close>, with no key of \<open>words\<close> mapped to 7.\<close>

theorem unknown_identifier_rejected_witness:
  "decompress_file \<lparr>extension = Some (str ''.txt''), words = Some [(str ''the'', 1)],
      data = Some [Id 1, Id 7]\<rparr> = Inl (KeyError (KeyInt 7))"
proof -
  let ?r = "\<lparr>extension = Some (str ''.txt''), words = Some [(str ''the'', 1)],
      data = Some [Id 1, Id 7]\<rparr>"
  have "\<exists>j. decompress_file ?r = Inl (KeyError (KeyInt j)) \<and> Id j \<in> set [Id 1, Id 7] \<and>
      j \<notin> snd ` set [(str ''the'', 1::int)]"
    by (rule unknown_identifier_rejected [where i = 7]) simp_all
  then show ?thesis by auto
qed

text \<open>
  Decoding succeeds when every entry of \<open>data\<close> is a string or an integer that is a value
  of \<open>words\<close>; an entry of another kind makes the join fail once the loop has passed.
\<close>

lemma decompress_file_ok:
  assumes "words r = Some ws" and "data r = Some ds"
    and "\<forall>i. Id i \<in> set ds \<longrightarrow> i \<in> snd ` set ws" and "\<forall>x. Other x \<notin> set ds"
  shows "decompress_file r =
     Inr (concat (map (\<lambda>e. case e of Id i \<Rightarrow> the (map_of (id_to_word ws) i) | Lit s \<Rightarrow> s
                         | Other x \<Rightarrow> []) ds),
          case extension r of None \<Rightarrow> str ''.txt'' | Some e \<Rightarrow> e)"
proof -
  from assms(3) have "\<forall>i. Id i \<in> set ds \<longrightarrow> i \<in> dom (map_of (id_to_word ws))"
    unfolding dom_id_to_word .
  then have "restore_tokens (id_to_word ws) ds =
      Inr (map Str (map (\<lambda>e. case e of Id i \<Rightarrow> the (map_of (id_to_word ws) i) | Lit s \<Rightarrow> s
                         | Other x \<Rightarrow> []) ds))"
    using assms(4) by (rule restore_tokens_strings)
  with assms(1,2) show ?thesis
    by (simp add: decompress_file_def str_join_strings del: map_map)
qed

lemma decompress_file_not_string:
  assumes "words r = Some ws" and "data r = Some ds"
    and "\<forall>i. Id i \<in> set ds \<longrightarrow> i \<in> snd ` set ws" and "Other x \<in> set ds"
  shows "decompress_file r = Inl TypeError"
proof -
  let ?restored = "map (\<lambda>e. case e of Id i \<Rightarrow> Str (the (map_of (id_to_word ws) i))
      | Lit s \<Rightarrow> Str s | Other v \<Rightarrow> NotStr v) ds"
  from assms(3) have "\<forall>i. Id i \<in> set ds \<longrightarrow> i \<in> dom (map_of (id_to_word ws))"
    unfolding dom_id_to_word .
  then have "restore_tokens (id_to_word ws) ds = Inr ?restored"
    by (rule restore_tokens_ok)
  moreover have "NotStr x \<in> set ?restored"
    using assms(4) by (force simp: image_iff)
  then have "str_join ?restored = Inl TypeError"
    by (rule str_join_not_string)
  ultimately show ?thesis
    using assms(1,2) by (simp add: decompress_file_def)
qed

text \<open>
  Two keys with the identifier 1: decoding does not fail, it takes the later key.
\<close>

theorem duplicate_identifier_counterexample:
  "decompress_file \<lparr>extension = Some (str ''.txt''),
      words = Some [(str ''a'', 1), (str ''b'', 1)], data = Some [Id 1]\<rparr> =
     Inr (str ''b'', str ''.txt'')"
  by (simp add: decompress_file_def id_to_word_def)

text \<open>
  Claim C4, as amended. The decoder does not validate that identifiers are unique. When
  \<open>words\<close> maps strings to integers and has two distinct keys with the same identifier,
  and every entry of \<open>data\<close> is a string or an integer that is a value of \<open>words\<close>,
  decoding succeeds: a string is kept as it is and an identifier is replaced by the last
  key of \<open>words\<close> that carries it.
\<close>

theorem duplicate_identifier_last_wins:
  assumes "words r = Some ws" and "data r = Some ds"
    and "(k1, v) \<in> set ws" and "(k2, v) \<in> set ws" and "k1 \<noteq> k2"
    and "\<forall>i. Id i \<in> set ds \<longrightarrow> i \<in> snd ` set ws"
    and "\<forall>x. Other x \<notin> set ds"
  shows "\<exists>restored. decompress_file r =
       Inr (concat restored, case extension r of None \<Rightarrow> str ''.txt'' | Some e \<Rightarrow> e) \<and>
     length restored = length ds \<and>
     (\<forall>j < length ds. \<forall>s. ds ! j = Lit s \<longrightarrow> restored ! j = s) \<and>
     (\<forall>j < length ds. \<forall>i. ds ! j = Id i \<longrightarrow>
        (\<exists>ws1 ws2. ws = ws1 @ (restored ! j, i) # ws2 \<and> i \<notin> snd ` set ws2))"
proof -
  let ?resolve = "\<lambda>e. case e of Id i \<Rightarrow> the (map_of (id_to_word ws) i) | Lit s \<Rightarrow> s
      | Other x \<Rightarrow> []"
  let ?restored = "map ?resolve ds"
  have "decompress_file r =
      Inr (concat ?restored, case extension r of None \<Rightarrow> str ''.txt'' | Some e \<Rightarrow> e)"
    using assms(1,2,6,7) by (rule decompress_file_ok)
  moreover have "length ?restored = length ds"
    by simp
  moreover have "\<forall>j < length ds. \<forall>s. ds ! j = Lit s \<longrightarrow> ?restored ! j = s"
    by simp
  moreover have "\<forall>j < length ds. \<forall>i. ds ! j = Id i \<longrightarrow>
      (\<exists>ws1 ws2. ws = ws1 @ (?restored ! j, i) # ws2 \<and> i \<notin> snd ` set ws2)"
  proof (intro allI impI)
    fix j i
    assume j: "j < length ds" and at_j: "ds ! j = Id i"
    then have "Id i \<in> set ds"
      using nth_mem [of j ds] by simp
    with assms(6) have "i \<in> dom (map_of (id_to_word ws))"
      unfolding dom_id_to_word by blast
    then obtain k where k: "map_of (id_to_word ws) i = Some k"
      by blast
    then have "\<exists>ws1 ws2. ws = ws1 @ (k, i) # ws2 \<and> i \<notin> snd ` set ws2"
      by (rule id_to_word_SomeD)
    with j at_j k
    show "\<exists>ws1 ws2. ws = ws1 @ (?restored ! j, i) # ws2 \<and> i \<notin> snd ` set ws2"
      by simp
  qed
  ultimately show ?thesis by blast
qed

text \<open>The record of the counterexample, followed by a literal.\<close>

theorem duplicate_identifier_last_wins_witness:
  "decompress_file \<lparr>extension = Some (str ''.txt''),
      words = Some [(str ''a'', 1), (str ''b'', 1)], data = Some [Id 1, Lit (str ''c'')]\<rparr> =
     Inr (str ''bc'', str ''.txt'')"
proof -
  let ?r = "\<lparr>extension = Some (str ''.txt''),
        words = Some [(str ''a'', 1), (str ''b'', 1)], data = Some [Id 1, Lit (str ''c'')]\<rparr>"
  let ?ds = "[Id 1, Lit (str ''c'')]"
  have "\<exists>restored. decompress_file ?r =
       Inr (concat restored, case extension ?r of None \<Rightarrow> str ''.txt'' | Some e \<Rightarrow> e) \<and>
     length restored = length ?ds \<and>
     (\<forall>j < length ?ds. \<forall>s. ?ds ! j = Lit s \<longrightarrow> restored ! j = s) \<and>
     (\<forall>j < length ?ds. \<forall>i. ?ds ! j = Id i \<longrightarrow>
        (\<exists>ws1 ws2. [(str ''a'', 1), (str ''b'', 1)] = ws1 @ (restored ! j, i) # ws2 \<and>
          i \<notin> snd ` set ws2))"
    by (rule duplicate_identifier_last_wins [where ?k1.0 = "str ''a''" and ?k2.0 = "str ''b''" and v = 1])
      simp_all
  then obtain restored where "decompress_file ?r = Inr (concat restored, str ''.txt'')"
    by auto
  then show ?thesis
    by (simp add: decompress_file_def id_to_word_def)
qed

section \<open>A record without the extension field\<close>

text \<open>
  A record without \<open>extension\<close> whose \<open>data\<close> holds an unknown identifier: decoding
  fails.
\<close>

theorem missing_extension_counterexample:
  "decompress_file \<lparr>extension = None, words = Some [], data = Some [Id 7]\<rparr> =
     Inl (KeyError (KeyInt 7))"
  by (simp add: decompress_file_def id_to_word_def)

text \<open>
  Claim C10, as amended. For every record that lacks \<open>extension\<close>, whose \<open>words\<close> maps
  strings to integers and whose \<open>data\<close> holds only strings and integers that are values
  of \<open>words\<close>, decoding does not fail: the extension is \<open>".txt"\<close> and the text is the one
  that the same record with any extension decodes to.
\<close>

theorem missing_extension_defaults:
  assumes "extension r = None" and "words r = Some ws" and "data r = Some ds"
    and "\<forall>i. Id i \<in> set ds \<longrightarrow> i \<in> snd ` set ws"
    and "\<forall>x. Other x \<notin> set ds"
  shows "\<exists>restored_text. decompress_file r = Inr (restored_text, str ''.txt'') \<and>
     (\<forall>e. decompress_file (r\<lparr>extension := Some e\<rparr>) = Inr (restored_text, e))"
proof -
  let ?restored_text =
    "concat (map (\<lambda>e. case e of Id i \<Rightarrow> the (map_of (id_to_word ws) i) | Lit s \<Rightarrow> s
        | Other x \<Rightarrow> []) ds)"
  have "decompress_file r = Inr (?restored_text, str ''.txt'')"
    using decompress_file_ok [OF assms(2,3,4,5)] assms(1) by simp
  moreover have "decompress_file (r\<lparr>extension := Some e\<rparr>) = Inr (?restored_text, e)" for e
    using decompress_file_ok [of "r\<lparr>extension := Some e\<rparr>" ws ds] assms(2,3,4,5) by simp
  ultimately show ?thesis by blast
qed

text \<open>A record without \<open>extension\<close> that decodes to \<open>"the the"\<close>.\<close>

theorem missing_extension_defaults_witness:
  "decompress_file \<lparr>extension = None, words = Some [(str ''the'', 1)],
      data = Some [Id 1, Lit (str '' ''), Id 1]\<rparr> = Inr (str ''the the'', str ''.txt'')"
proof -
  let ?r = "\<lparr>extension = None, words = Some [(str ''the'', 1)],
      data = Some [Id 1, Lit (str '' ''), Id 1]\<rparr>"
  have "\<exists>restored_text. decompress_file ?r = Inr (restored_text, str ''.txt'') \<and>
     (\<forall>e. decompress_file (?r\<lparr>extension := Some e\<rparr>) = Inr (restored_text, e))"
    by (rule missing_extension_defaults [where ws = "[(str ''the'', 1)]"]) auto
  then obtain restored_text
    where "decompress_file ?r = Inr (restored_text, str ''.txt'')"
      and "decompress_file (?r\<lparr>extension := Some (str ''.md'')\<rparr>) = Inr (restored_text, str ''.md'')"
    by blast
  then show ?thesis
    by (simp add: decompress_file_def id_to_word_def)
qed

section \<open>The concrete scenario\<close>

text \<open>The stages of \<open>compress_file\<close> on \<open>"the cat sat on the mat the cat ran"\<close>.\<close>

lemma scenario_tokens:
  "re_split (str ''the cat sat on the mat the cat ran'') =
     [str ''the'', str '' '', str ''cat'', str '' '', str ''sat'', str '' '', str ''on'',
      str '' '', str ''the'', str '' '', str ''mat'', str '' '', str ''the'', str '' '',
      str ''cat'', str '' '', str ''ran'']"
  by (simp add: re_split_last re_split_more is_space_def)

lemma scenario_frequency:
  "count_frequency (re_split (str ''the cat sat on the mat the cat ran'')) =
     [(str ''the'', 3), (str '' '', 8), (str ''cat'', 2), (str ''sat'', 1), (str ''on'', 1),
      (str ''mat'', 1), (str ''ran'', 1)]"
  unfolding scenario_tokens by (simp add: count_frequency_def dict_get_def)

lemma scenario_sorted_tokens:
  "sorted_tokens (count_frequency (re_split (str ''the cat sat on the mat the cat ran''))) =
     [str '' '', str ''the'', str ''cat'', str ''on'', str ''sat'', str ''mat'', str ''ran'']"
  unfolding scenario_frequency by (simp add: sorted_tokens_def rank_key_def dict_get_def)

lemma scenario_word_dict:
  "word_dict_of (re_split (str ''the cat sat on the mat the cat ran'')) =
     [(str '' '', 1), (str ''the'', 2), (str ''cat'', 3)]"
  unfolding word_dict_of_def Let_def scenario_sorted_tokens unfolding scenario_frequency
  by (simp add: build_word_dict_def worth_compressing_def dict_get_def enumerate_eq_zip upt_rec)

lemma scenario_record:
  "compress_file (str ''the cat sat on the mat the cat ran'') ext =
     \<lparr>extension = Some ext,
      words = Some [(str '' '', 1), (str ''the'', 2), (str ''cat'', 3)],
      data = Some [Id 2, Id 1, Id 3, Id 1, Lit (str ''sat''), Id 1, Lit (str ''on''), Id 1,
                   Id 2, Id 1, Lit (str ''mat''), Id 1, Id 2, Id 1, Id 3, Id 1,
                   Lit (str ''ran'')]\<rparr>"
  unfolding compress_file_def Let_def scenario_word_dict unfolding scenario_tokens
  by (simp add: build_data_def)

text \<open>
  The dictionary of the scenario is not \<open>{"the": 1, "cat": 2}\<close>: the single space is a
  token too, the most frequent one.
\<close>

theorem concrete_scenario_counterexample:
  "map_of (the (words (compress_file (str ''the cat sat on the mat the cat ran'') (str ''.txt''))))
     \<noteq> map_of [(str ''the'', 1), (str ''cat'', 2)]"
proof
  assume "map_of (the (words (compress_file (str ''the cat sat on the mat the cat ran'') (str ''.txt''))))
     = map_of [(str ''the'', 1), (str ''cat'', 2)]"
  then have "map_of [(str '' '', 1), (str ''the'', 2), (str ''cat'', 3)] (str '' '')
     = map_of [(str ''the'', 1::int), (str ''cat'', 2)] (str '' '')"
    unfolding scenario_record by simp
  then show False by simp
qed

text \<open>
  Claim C2, as amended. Encoding \<open>"the cat sat on the mat the cat ran"\<close> gives the
  dictionary \<open>{" ": 1, "the": 2, "cat": 3}\<close>: the whitespace runs are tokens and the
  space, with eight occurrences, ranks first. The tokens \<open>sat\<close>, \<open>on\<close>, \<open>mat\<close>, \<open>ran\<close>
  are literals in \<open>data\<close>, which holds identifier 1 for every space and identifiers 2
  and 3 for \<open>the\<close> and \<open>cat\<close>, and decoding gives back the text.
\<close>

theorem concrete_scenario:
  "compress_file (str ''the cat sat on the mat the cat ran'') ext =
     \<lparr>extension = Some ext,
      words = Some [(str '' '', 1), (str ''the'', 2), (str ''cat'', 3)],
      data = Some [Id 2, Id 1, Id 3, Id 1, Lit (str ''sat''), Id 1, Lit (str ''on''), Id 1,
                   Id 2, Id 1, Lit (str ''mat''), Id 1, Id 2, Id 1, Id 3, Id 1,
                   Lit (str ''ran'')]\<rparr> \<and>
   decompress_file (compress_file (str ''the cat sat on the mat the cat ran'') ext) =
     Inr (str ''the cat sat on the mat the cat ran'', ext)"
proof
  show "compress_file (str ''the cat sat on the mat the cat ran'') ext =
     \<lparr>extension = Some ext,
      words = Some [(str '' '', 1), (str ''the'', 2), (str ''cat'', 3)],
      data = Some [Id 2, Id 1, Id 3, Id 1, Lit (str ''sat''), Id 1, Lit (str ''on''), Id 1,
                   Id 2, Id 1, Lit (str ''mat''), Id 1, Id 2, Id 1, Id 3, Id 1,
                   Lit (str ''ran'')]\<rparr>"
    by (rule scenario_record)
  show "decompress_file (compress_file (str ''the cat sat on the mat the cat ran'') ext) =
     Inr (str ''the cat sat on the mat the cat ran'', ext)"
    unfolding scenario_record by (simp add: decompress_file_def id_to_word_def)
qed

section \<open>Ranking of ties\<close>

text \<open>
  The frequency table lists the tokens in the order of their first occurrence, and the
  stable sort keeps that order among tokens with equal keys.
\<close>

lemma keys_count_fold_prefix:
  "\<exists>zs. map fst (fold (\<lambda>token frequency.
       AList.update token (dict_get frequency token 0 + 1) frequency) tokens acc) =
     map fst acc @ zs"
proof (induction tokens arbitrary: acc)
  case Nil
  show ?case by simp
next
  case (Cons x tokens)
  let ?acc = "AList.update x (dict_get acc x 0 + 1) acc"
  from Cons.IH [of ?acc] obtain zs where "map fst (fold (\<lambda>token frequency.
       AList.update token (dict_get frequency token 0 + 1) frequency) tokens ?acc) =
     map fst ?acc @ zs"
    by blast
  moreover obtain ys where "map fst ?acc = map fst acc @ ys"
    by (cases "x \<in> fst ` set acc") (simp_all add: update_keys)
  ultimately show ?case by simp
qed

lemma keys_first_occurrence:
  assumes "tokens = us @ a # vs" and "b \<notin> set us" and "b \<in> set vs" and "a \<noteq> b"
  shows "\<exists>ks1 ks2. map fst (count_frequency tokens) = ks1 @ a # ks2 \<and> b \<in> set ks2"
proof -
  let ?step = "\<lambda>token frequency. AList.update token (dict_get frequency token 0 + 1) frequency"
  have "count_frequency tokens = fold ?step vs (count_frequency (us @ [a]))"
    unfolding assms(1) count_frequency_def by simp
  then obtain zs where zs: "map fst (count_frequency tokens) =
      map fst (count_frequency (us @ [a])) @ zs"
    using keys_count_fold_prefix [of vs "count_frequency (us @ [a])"] by auto
  have "a \<in> set (map fst (count_frequency (us @ [a])))"
    unfolding set_keys_count_frequency by simp
  then obtain ks1 ks where ks: "map fst (count_frequency (us @ [a])) = ks1 @ a # ks"
    by (auto simp: in_set_conv_decomp)
  have "b \<notin> set (map fst (count_frequency (us @ [a])))"
    unfolding set_keys_count_frequency using assms(2,4) by simp
  moreover have "b \<in> set (map fst (count_frequency tokens))"
    unfolding set_keys_count_frequency using assms(1,3) by simp
  ultimately have "b \<in> set zs"
    unfolding zs by simp
  then have "map fst (count_frequency tokens) = ks1 @ a # (ks @ zs) \<and> b \<in> set (ks @ zs)"
    unfolding zs ks by simp
  then show ?thesis by blast
qed

lemma filter_eq_append_ConsD:
  assumes "filter P xs = ys @ a # zs"
  shows "\<exists>us vs. xs = us @ a # vs \<and> filter P vs = zs"
  using assms
proof (induction xs arbitrary: ys)
  case Nil
  then show ?case by simp
next
  case (Cons x xs)
  show ?case
  proof (cases "P x \<and> ys = []")
    case True
    with Cons.prems have "x # xs = [] @ a # xs \<and> filter P xs = zs"
      by simp
    then show ?thesis by blast
  next
    case False
    then have "\<exists>ys'. filter P xs = ys' @ a # zs"
      using Cons.prems by (cases ys) (auto split: if_splits)
    then obtain us vs where "xs = us @ a # vs" and "filter P vs = zs"
      using Cons.IH by blast
    then have "x # xs = (x # us) @ a # vs \<and> filter P vs = zs"
      by simp
    then show ?thesis by blast
  qed
qed

lemma sort_key_keeps_order_of_ties:
  fixes f :: "'a \<Rightarrow> 'k::linorder"
  assumes "xs = xs1 @ a # xs2" and "b \<in> set xs2" and "f a = f b"
  shows "\<exists>ys1 ys2. sort_key f xs = ys1 @ a # ys2 \<and> b \<in> set ys2"
proof -
  let ?P = "\<lambda>y. f y = f a"
  have "filter ?P (sort_key f xs) = filter ?P xs"
    by (rule sort_key_stable)
  also have "\<dots> = filter ?P xs1 @ a # filter ?P xs2"
    unfolding assms(1) by simp
  finally have "\<exists>us vs. sort_key f xs = us @ a # vs \<and> filter ?P vs = filter ?P xs2"
    by (rule filter_eq_append_ConsD)
  then obtain ys1 ys2 where sorted: "sort_key f xs = ys1 @ a # ys2"
    and "filter ?P ys2 = filter ?P xs2"
    by blast
  moreover have "b \<in> set (filter ?P xs2)"
    using assms(2,3) by simp
  ultimately have "b \<in> set (filter ?P ys2)"
    by simp
  then have "b \<in> set ys2"
    by simp
  with sorted show ?thesis by blast
qed

text \<open>
  Claim C9. When two distinct tokens have equal frequency and equal length and the first
  occurrence of \<open>a\<close> in the text comes before every occurrence of \<open>b\<close>, then \<open>a\<close> is
  ranked before \<open>b\<close>, and the identifiers, which are the rank positions plus one, are
  in the same order whenever both tokens are in the dictionary.
\<close>

theorem tie_break_first_occurrence:
  assumes "re_split t = us @ a # vs" and "b \<notin> set us" and "b \<in> set vs" and "a \<noteq> b"
    and "count_list (re_split t) a = count_list (re_split t) b" and "length a = length b"
  shows "\<exists>i j. i < j \<and> j < length (sorted_tokens (count_frequency (re_split t))) \<and>
     sorted_tokens (count_frequency (re_split t)) ! i = a \<and>
     sorted_tokens (count_frequency (re_split t)) ! j = b \<and>
     (\<forall>ia ib. map_of (word_dict_of (re_split t)) a = Some ia \<and>
        map_of (word_dict_of (re_split t)) b = Some ib \<longrightarrow> ia = int i + 1 \<and> ib = int j + 1)"
proof -
  let ?tokens = "re_split t"
  let ?frequency = "count_frequency ?tokens"
  let ?ranked = "sorted_tokens ?frequency"
  have "\<exists>ks1 ks2. map fst ?frequency = ks1 @ a # ks2 \<and> b \<in> set ks2"
    using assms(1-4) by (rule keys_first_occurrence)
  then obtain ks1 ks2 where keys: "map fst ?frequency = ks1 @ a # ks2" and "b \<in> set ks2"
    by blast
  moreover have "rank_key ?frequency a = rank_key ?frequency b"
    using assms(5,6) by (simp add: rank_key_def frequency_get)
  ultimately have "\<exists>ys1 ys2. sort_key (rank_key ?frequency) (map fst ?frequency) = ys1 @ a # ys2 \<and>
      b \<in> set ys2"
    by (rule sort_key_keeps_order_of_ties)
  then obtain ys1 ys2 where ranked: "?ranked = ys1 @ a # ys2" and "b \<in> set ys2"
    unfolding sorted_tokens_def by blast
  then obtain m where m: "m < length ys2" and b: "ys2 ! m = b"
    unfolding in_set_conv_nth by blast
  define i where "i = length ys1"
  define j where "j = length ys1 + 1 + m"
  have less: "i < j"
    unfolding i_def j_def by simp
  have len: "j < length ?ranked"
    unfolding ranked j_def using m by simp
  have at_i: "?ranked ! i = a"
    unfolding ranked i_def by simp
  have at_j: "?ranked ! j = b"
    unfolding ranked j_def using b by (simp add: nth_append)
  have dist: "distinct ?ranked"
    by (rule distinct_sorted_tokens)
  have ids: "ia = int i + 1 \<and> ib = int j + 1"
    if "map_of (word_dict_of ?tokens) a = Some ia \<and> map_of (word_dict_of ?tokens) b = Some ib"
    for ia ib
  proof -
    from that obtain i' j' where i': "i' < length ?ranked" "?ranked ! i' = a" "ia = int i' + 1"
      and j': "j' < length ?ranked" "?ranked ! j' = b" "ib = int j' + 1"
      unfolding map_of_word_dict_of_iff by blast
    have "i < length ?ranked"
      using less len by simp
    then have "i' = i"
      using nth_eq_iff_index_eq [OF dist i'(1), of i] i'(2) at_i by simp
    moreover have "j' = j"
      using nth_eq_iff_index_eq [OF dist j'(1) len] j'(2) at_j by simp
    ultimately show ?thesis
      using i'(3) j'(3) by simp
  qed
  then have "\<forall>ia ib. map_of (word_dict_of ?tokens) a = Some ia \<and>
      map_of (word_dict_of ?tokens) b = Some ib \<longrightarrow> ia = int i + 1 \<and> ib = int j + 1"
    by blast
  with less len at_i at_j show ?thesis
    by blast
qed

text \<open>The text \<open>"xy xy ab ab"\<close>: \<open>xy\<close> and \<open>ab\<close> tie, and \<open>xy\<close> comes first.\<close>

lemma tie_tokens:
  "re_split (str ''xy xy ab ab'') =
     [str ''xy'', str '' '', str ''xy'', str '' '', str ''ab'', str '' '', str ''ab'']"
  by (simp add: re_split_last re_split_more is_space_def)

lemma tie_word_dict:
  "word_dict_of [str ''xy'', str '' '', str ''xy'', str '' '', str ''ab'', str '' '', str ''ab''] =
     [(str '' '', 1), (str ''xy'', 2), (str ''ab'', 3)]"
  by (simp add: word_dict_of_def count_frequency_def sorted_tokens_def rank_key_def
      build_word_dict_def worth_compressing_def dict_get_def enumerate_eq_zip upt_rec)

theorem tie_break_first_occurrence_witness:
  "\<exists>i j. i < j \<and>
     sorted_tokens (count_frequency (re_split (str ''xy xy ab ab''))) ! i = str ''xy'' \<and>
     sorted_tokens (count_frequency (re_split (str ''xy xy ab ab''))) ! j = str ''ab'' \<and>
     map_of (word_dict_of (re_split (str ''xy xy ab ab''))) (str ''xy'') = Some (int i + 1) \<and>
     map_of (word_dict_of (re_split (str ''xy xy ab ab''))) (str ''ab'') = Some (int j + 1) \<and>
     int i + 1 = 2 \<and> int j + 1 = 3"
proof -
  let ?t = "str ''xy xy ab ab''"
  let ?ranked = "sorted_tokens (count_frequency (re_split ?t))"
  have xy: "map_of (word_dict_of (re_split ?t)) (str ''xy'') = Some 2"
    unfolding tie_tokens tie_word_dict by simp
  have ab: "map_of (word_dict_of (re_split ?t)) (str ''ab'') = Some 3"
    unfolding tie_tokens tie_word_dict by simp
  have "\<exists>i j. i < j \<and> j < length ?ranked \<and> ?ranked ! i = str ''xy'' \<and> ?ranked ! j = str ''ab'' \<and>
     (\<forall>ia ib. map_of (word_dict_of (re_split ?t)) (str ''xy'') = Some ia \<and>
        map_of (word_dict_of (re_split ?t)) (str ''ab'') = Some ib \<longrightarrow>
        ia = int i + 1 \<and> ib = int j + 1)"
    by (rule tie_break_first_occurrence [where us = "[]"
          and vs = "[str '' '', str ''xy'', str '' '', str ''ab'', str '' '', str ''ab'']"])
      (unfold tie_tokens, simp_all)
  then obtain i j where "i < j" and "?ranked ! i = str ''xy''" and "?ranked ! j = str ''ab''"
    and "\<forall>ia ib. map_of (word_dict_of (re_split ?t)) (str ''xy'') = Some ia \<and>
        map_of (word_dict_of (re_split ?t)) (str ''ab'') = Some ib \<longrightarrow>
        ia = int i + 1 \<and> ib = int j + 1"
    by blast
  moreover from this xy ab have "2 = int i + 1 \<and> 3 = int j + 1"
    by blast
  ultimately have "i < j \<and> ?ranked ! i = str ''xy'' \<and> ?ranked ! j = str ''ab'' \<and>
     map_of (word_dict_of (re_split ?t)) (str ''xy'') = Some (int i + 1) \<and>
     map_of (word_dict_of (re_split ?t)) (str ''ab'') = Some (int j + 1) \<and>
     int i + 1 = 2 \<and> int j + 1 = 3"
    using xy ab by simp
  then show ?thesis by blast
qed

end
